theory Spec2Isabelle
  imports Main "HOL-Library.Word"
begin

section \<open>Bytes, exceptions and the supplied collaborators\<close>

text \<open>
  A Python \<open>bytes\<close> value is a list of 8-bit words. Every exception the module can raise
  is a value of \<open>exn\<close>; a function that may raise returns \<open>exn + 'a\<close>.
\<close>

type_synonym byte = "8 word"
type_synonym bytes = "byte list"

datatype exn =
    AssertionError
  | BadSignatureError
  | IndexError
  | StructError
  | BinasciiError
  | UnicodeDecodeError
  | UnicodeEncodeError
  | ValueError

text \<open>
  \<open>ed25519.VerifyingKey\<close> wraps the 32 raw bytes of a public key: its constructor
  asserts the length, \<open>to_bytes\<close> gives the bytes back, and two keys are equal when
  their bytes are.
\<close>

datatype VerifyingKey = VK (to_bytes: bytes)

definition VerifyingKey_new :: "bytes \<Rightarrow> exn + VerifyingKey" where
  "VerifyingKey_new vk_s = (if length vk_s = 32 then Inr (VK vk_s) else Inl AssertionError)"

definition valid_key :: "VerifyingKey \<Rightarrow> bool" where
  "valid_key k = (length (to_bytes k) = 32)"

text \<open>
  The signature primitive is supplied from outside the module. On byte strings,
  \<open>VerifyingKey.verify(sig, msg)\<close> either returns, fails an assertion (a signature that
  is not 64 bytes long) or raises \<open>BadSignatureError\<close>; \<open>SigningKey.sign(msg)\<close> returns
  the signature. Both are parameters of the functions below.
\<close>

datatype verify_outcome = Returned | Raised_AssertionError | Raised_BadSignatureError

type_synonym verify_prim = "VerifyingKey \<Rightarrow> bytes \<Rightarrow> bytes \<Rightarrow> verify_outcome"
type_synonym 'sk sign_prim = "'sk \<Rightarrow> bytes \<Rightarrow> bytes"

section \<open>Certificates and their accessors\<close>

type_synonym Certificate = "bytes \<times> VerifyingKey \<times> bytes"

text \<open>\<open>ctypes.create_string_buffer(b).value\<close>: the bytes before the first NUL.\<close>

definition create_string_buffer_value :: "bytes \<Rightarrow> bytes" where
  "create_string_buffer_value b = takeWhile (\<lambda>x. x \<noteq> 0) b"

definition null_terminated :: "('a \<Rightarrow> bytes) \<Rightarrow> 'a \<Rightarrow> bytes" where
  "null_terminated getter obj = create_string_buffer_value (getter obj)"

definition get_name :: "bytes \<times> 'a \<times> 'b \<Rightarrow> bytes" where
  "get_name = null_terminated fst"

definition get_public_key :: "'a \<times> 'b \<times> 'c \<Rightarrow> 'b" where
  "get_public_key cert = fst (snd cert)"

definition get_signature :: "'a \<times> 'b \<times> 'c \<Rightarrow> 'c" where
  "get_signature cert = snd (snd cert)"

section \<open>Fixed-width packing\<close>

text \<open>
  The \<open>s\<close> format of \<open>struct.pack\<close> truncates a byte string to the field width or pads
  it with NUL bytes on the right.
\<close>

definition pack_s :: "nat \<Rightarrow> bytes \<Rightarrow> bytes" where
  "pack_s n b = take n b @ replicate (n - length b) 0"

definition pack_255s32s :: "bytes \<Rightarrow> bytes \<Rightarrow> bytes" where
  "pack_255s32s a b = pack_s 255 a @ pack_s 32 b"

definition pack_255s32s64s :: "bytes \<Rightarrow> bytes \<Rightarrow> bytes \<Rightarrow> bytes" where
  "pack_255s32s64s a b c = pack_s 255 a @ pack_s 32 b @ pack_s 64 c"

definition unpack_255s32s64s :: "bytes \<Rightarrow> exn + (bytes \<times> bytes \<times> bytes)" where
  "unpack_255s32s64s buf =
     (if length buf = 351
      then Inr (take 255 buf, take 32 (drop 255 buf), take 64 (drop 287 buf))
      else Inl StructError)"

section \<open>Issuance and verification\<close>

definition create_certificate ::
  "'sk sign_prim \<Rightarrow> bytes \<Rightarrow> VerifyingKey \<Rightarrow> 'sk \<Rightarrow> Certificate" where
  "create_certificate sign name pubkey privkey =
     (let signature = sign privkey (pack_255s32s name (to_bytes pubkey))
      in (name, pubkey, signature))"

definition verify_challenge :: "verify_prim \<Rightarrow> bytes \<Rightarrow> bytes \<Rightarrow> Certificate \<Rightarrow> bool" where
  "verify_challenge verify challenge signature cert =
     (case verify (get_public_key cert) signature challenge of
        Raised_AssertionError \<Rightarrow> False
      | Raised_BadSignatureError \<Rightarrow> False
      | Returned \<Rightarrow> True)"

definition verify_certificate :: "verify_prim \<Rightarrow> Certificate \<Rightarrow> Certificate \<Rightarrow> bool" where
  "verify_certificate verify cert ca =
     (case verify (get_public_key ca) (get_signature cert)
             (pack_255s32s (get_name cert) (to_bytes (get_public_key cert))) of
        Raised_AssertionError \<Rightarrow> False
      | Raised_BadSignatureError \<Rightarrow> False
      | Returned \<Rightarrow> True)"

text \<open>
  Chain verification. With at most one certificate the only link is
  \<open>(chain[0], chain[0])\<close>, and reading \<open>chain[0]\<close> of an empty chain raises
  \<open>IndexError\<close>. Past that point the chain is not empty, so \<open>chain[-1]\<close> is its
  element at index \<open>len(chain) - 1\<close>. \<open>and\<close> evaluates the anchors only when every
  link holds.
\<close>

definition chain_links :: "Certificate list \<Rightarrow> exn + (Certificate \<times> Certificate) list" where
  "chain_links chain =
     (if length chain > 1
      then Inr (map (\<lambda>i. (chain ! i, chain ! (i + 1))) [0 ..< length chain - 1])
      else (case chain of
              [] \<Rightarrow> Inl IndexError
            | c # _ \<Rightarrow> Inr [(c, c)]))"

definition verify_certificate_chain ::
  "verify_prim \<Rightarrow> Certificate list \<Rightarrow> Certificate list \<Rightarrow> exn + bool" where
  "verify_certificate_chain verify chain trusted =
     (case chain_links chain of
        Inl e \<Rightarrow> Inl e
      | Inr links \<Rightarrow>
          Inr (list_all (\<lambda>(cert, issuer). verify_certificate verify cert issuer) links \<and>
               list_ex (\<lambda>ca. verify_certificate verify (chain ! (length chain - 1)) ca) trusted))"

section \<open>Base64\<close>

text \<open>
  \<open>base64.b64encode\<close> and \<open>base64.b64decode\<close> of the standard library, on the
  standard alphabet with \<open>=\<close> padding (byte 61). The decoder below accepts exactly
  the padded groups of four alphabet characters and raises \<open>binascii.Error\<close> on anything
  else; the library's tolerance of characters outside the alphabet and of data after the
  padding is left out. The properties below decode nothing but an encoder's output.
\<close>

definition b64_code :: "nat \<Rightarrow> nat" where
  "b64_code i =
     (if i < 26 then 65 + i
      else if i < 52 then 71 + i
      else if i < 62 then i - 4
      else if i = 62 then 43
      else 47)"

definition b64_char :: "nat \<Rightarrow> byte" where
  "b64_char i = of_nat (b64_code i)"

definition b64_index :: "byte \<Rightarrow> nat option" where
  "b64_index c =
     (let n = unat c in
      if 65 \<le> n \<and> n \<le> 90 then Some (n - 65)
      else if 97 \<le> n \<and> n \<le> 122 then Some (n - 71)
      else if 48 \<le> n \<and> n \<le> 57 then Some (n + 4)
      else if n = 43 then Some 62
      else if n = 47 then Some 63
      else None)"

fun b64encode :: "bytes \<Rightarrow> bytes" where
  "b64encode (a # b # c # rest) =
     (let n = unat a * 65536 + unat b * 256 + unat c
      in b64_char (n div 262144) # b64_char (n div 4096 mod 64) #
         b64_char (n div 64 mod 64) # b64_char (n mod 64) # b64encode rest)"
| "b64encode [a, b] =
     (let n = unat a * 65536 + unat b * 256
      in [b64_char (n div 262144), b64_char (n div 4096 mod 64),
          b64_char (n div 64 mod 64), 61])"
| "b64encode [a] =
     (let n = unat a * 65536
      in [b64_char (n div 262144), b64_char (n div 4096 mod 64), 61, 61])"
| "b64encode [] = []"

fun b64decode :: "bytes \<Rightarrow> exn + bytes" where
  "b64decode (c1 # c2 # c3 # c4 # rest) =
     (case (b64_index c1, b64_index c2) of
        (Some s1, Some s2) \<Rightarrow>
          if rest = [] \<and> c3 = 61 \<and> c4 = 61
          then Inr [of_nat ((s1 * 64 + s2) div 16)]
          else (case b64_index c3 of
                  Some s3 \<Rightarrow>
                    if rest = [] \<and> c4 = 61
                    then (let n = (s1 * 64 + s2) * 64 + s3
                          in Inr [of_nat (n div 1024), of_nat (n div 4 mod 256)])
                    else (case b64_index c4 of
                            Some s4 \<Rightarrow>
                              (case b64decode rest of
                                 Inl e \<Rightarrow> Inl e
                               | Inr out \<Rightarrow>
                                   (let n = ((s1 * 64 + s2) * 64 + s3) * 64 + s4
                                    in Inr (of_nat (n div 65536) # of_nat (n div 256 mod 256)
                                            # of_nat (n mod 256) # out)))
                          | None \<Rightarrow> Inl BinasciiError)
                | None \<Rightarrow> Inl BinasciiError)
      | _ \<Rightarrow> Inl BinasciiError)"
| "b64decode [] = Inr []"
| "b64decode _ = Inl BinasciiError"

section \<open>Text\<close>

text \<open>
  A Python \<open>str\<close> is a list of code points. \<open>bytes.decode()\<close> is the strict UTF-8
  decoder (no overlong forms, no surrogates, nothing above U+10FFFF) and \<open>str.encode()\<close>
  the UTF-8 encoder, which refuses a surrogate.
\<close>

type_synonym str = "nat list"

definition is_cont :: "byte \<Rightarrow> bool" where
  "is_cont c = (128 \<le> unat c \<and> unat c \<le> 191)"

text \<open>The code point carried by a sequence of two, three or four bytes.\<close>

definition code_point2 :: "nat \<Rightarrow> nat \<Rightarrow> nat" where
  "code_point2 n c1 = (n - 192) * 64 + (c1 - 128)"

definition code_point3 :: "nat \<Rightarrow> nat \<Rightarrow> nat \<Rightarrow> nat" where
  "code_point3 n c1 c2 = ((n - 224) * 64 + (c1 - 128)) * 64 + (c2 - 128)"

definition code_point4 :: "nat \<Rightarrow> nat \<Rightarrow> nat \<Rightarrow> nat \<Rightarrow> nat" where
  "code_point4 n c1 c2 c3 =
     (((n - 240) * 64 + (c1 - 128)) * 64 + (c2 - 128)) * 64 + (c3 - 128)"

fun bytes_decode :: "bytes \<Rightarrow> exn + str" where
  "bytes_decode [] = Inr []"
| "bytes_decode (b # rest) =
     (let n = unat b in
      if n < 128 then
        (case bytes_decode rest of Inl e \<Rightarrow> Inl e | Inr cs \<Rightarrow> Inr (n # cs))
      else if 194 \<le> n \<and> n \<le> 223 then
        (case rest of
           c1 # rest1 \<Rightarrow>
             if is_cont c1
             then (case bytes_decode rest1 of
                     Inl e \<Rightarrow> Inl e
                   | Inr cs \<Rightarrow> Inr (code_point2 n (unat c1) # cs))
             else Inl UnicodeDecodeError
         | _ \<Rightarrow> Inl UnicodeDecodeError)
      else if 224 \<le> n \<and> n \<le> 239 then
        (case rest of
           c1 # c2 # rest2 \<Rightarrow>
             if (if n = 224 then 160 else 128) \<le> unat c1 \<and>
                unat c1 \<le> (if n = 237 then 159 else 191) \<and> is_cont c2
             then (case bytes_decode rest2 of
                     Inl e \<Rightarrow> Inl e
                   | Inr cs \<Rightarrow>
                       Inr (code_point3 n (unat c1) (unat c2) # cs))
             else Inl UnicodeDecodeError
         | _ \<Rightarrow> Inl UnicodeDecodeError)
      else if 240 \<le> n \<and> n \<le> 244 then
        (case rest of
           c1 # c2 # c3 # rest3 \<Rightarrow>
             if (if n = 240 then 144 else 128) \<le> unat c1 \<and>
                unat c1 \<le> (if n = 244 then 143 else 191) \<and> is_cont c2 \<and> is_cont c3
             then (case bytes_decode rest3 of
                     Inl e \<Rightarrow> Inl e
                   | Inr cs \<Rightarrow>
                       Inr (code_point4 n (unat c1) (unat c2) (unat c3) # cs))
             else Inl UnicodeDecodeError
         | _ \<Rightarrow> Inl UnicodeDecodeError)
      else Inl UnicodeDecodeError)"

definition encode_code_point :: "nat \<Rightarrow> exn + bytes" where
  "encode_code_point cp =
     (if cp < 128 then Inr [of_nat cp]
      else if cp < 2048 then Inr [of_nat (192 + cp div 64), of_nat (128 + cp mod 64)]
      else if cp < 65536 then
        (if 55296 \<le> cp \<and> cp \<le> 57343 then Inl UnicodeEncodeError
         else Inr [of_nat (224 + cp div 4096), of_nat (128 + cp div 64 mod 64),
                   of_nat (128 + cp mod 64)])
      else if cp < 1114112 then
        Inr [of_nat (240 + cp div 262144), of_nat (128 + cp div 4096 mod 64),
             of_nat (128 + cp div 64 mod 64), of_nat (128 + cp mod 64)]
      else Inl UnicodeEncodeError)"

fun str_encode :: "str \<Rightarrow> exn + bytes" where
  "str_encode [] = Inr []"
| "str_encode (cp # cps) =
     (case encode_code_point cp of
        Inl e \<Rightarrow> Inl e
      | Inr bs \<Rightarrow> (case str_encode cps of Inl e \<Rightarrow> Inl e | Inr out \<Rightarrow> Inr (bs @ out)))"

text \<open>
  \<open>b64decode\<close> given a \<open>str\<close> first encodes it as ASCII and raises \<open>ValueError\<close> when
  a character is not ASCII.
\<close>

definition b64decode_str :: "str \<Rightarrow> exn + bytes" where
  "b64decode_str s =
     (if list_all (\<lambda>cp. cp < 128) s then b64decode (map of_nat s) else Inl ValueError)"

section \<open>Codecs\<close>

definition decode_certificate :: "str \<Rightarrow> str \<Rightarrow> str \<Rightarrow> exn + Certificate" where
  "decode_certificate name public_key signature =
     (case str_encode name of
        Inl e \<Rightarrow> Inl e
      | Inr n \<Rightarrow>
          (case b64decode_str public_key of
             Inl e \<Rightarrow> Inl e
           | Inr kb \<Rightarrow>
               (case VerifyingKey_new kb of
                  Inl e \<Rightarrow> Inl e
                | Inr k \<Rightarrow>
                    (case str_encode signature of
                       Inl e \<Rightarrow> Inl e
                     | Inr sb \<Rightarrow>
                         (case b64decode sb of
                            Inl e \<Rightarrow> Inl e
                          | Inr sg \<Rightarrow> Inr (n, k, sg))))))"

definition encode_certificate ::
  "bytes \<Rightarrow> VerifyingKey \<Rightarrow> bytes \<Rightarrow> exn + (str \<times> str \<times> str)" where
  "encode_certificate name pubkey signature =
     (case bytes_decode name of
        Inl e \<Rightarrow> Inl e
      | Inr n \<Rightarrow>
          (case bytes_decode (b64encode (to_bytes pubkey)) of
             Inl e \<Rightarrow> Inl e
           | Inr k \<Rightarrow>
               (case bytes_decode (b64encode signature) of
                  Inl e \<Rightarrow> Inl e
                | Inr sg \<Rightarrow> Inr (n, k, sg))))"

definition serialize_certificate :: "Certificate \<Rightarrow> bytes" where
  "serialize_certificate cert =
     b64encode (pack_255s32s64s (get_name cert) (to_bytes (get_public_key cert))
                  (get_signature cert))"

definition deserialize_certificate :: "bytes \<Rightarrow> exn + Certificate" where
  "deserialize_certificate serialized_cert =
     (case b64decode serialized_cert of
        Inl e \<Rightarrow> Inl e
      | Inr raw \<Rightarrow>
          (case unpack_255s32s64s raw of
             Inl e \<Rightarrow> Inl e
           | Inr cert \<Rightarrow>
               (case VerifyingKey_new (get_public_key cert) of
                  Inl e \<Rightarrow> Inl e
                | Inr k \<Rightarrow> Inr (get_name cert, k, get_signature cert))))"

section \<open>Notions used by the properties\<close>

text \<open>
  A signature scheme is correct when a signature made with a signing key is accepted
  under the verifying key that belongs to it.
\<close>

definition scheme_correct ::
  "'sk sign_prim \<Rightarrow> verify_prim \<Rightarrow> ('sk \<Rightarrow> VerifyingKey) \<Rightarrow> bool" where
  "scheme_correct sign verify verifying_key =
     (\<forall>sk msg. verify (verifying_key sk) (sign sk msg) msg = Returned)"

text \<open>A byte string is NUL-padded when nothing but NUL bytes follows its first NUL.\<close>

definition nul_padded :: "bytes \<Rightarrow> bool" where
  "nul_padded b = list_all (\<lambda>x. x = 0) (dropWhile (\<lambda>x. x \<noteq> 0) b)"

text \<open>
  A small instance of the primitive, to run the functions on concrete certificates: the
  signing key is a byte string, its verifying key the same bytes at width 32, and a
  signature is the key followed by the first 32 bytes of the message (NUL-padded). It is
  correct, it produces 64-byte signatures, and it rejects every other signature.
\<close>

definition ref_verifying_key :: "bytes \<Rightarrow> VerifyingKey" where
  "ref_verifying_key sk = VK (pack_s 32 sk)"

definition ref_sign :: "bytes sign_prim" where
  "ref_sign sk msg = pack_s 32 sk @ pack_s 32 msg"

definition ref_verify :: verify_prim where
  "ref_verify vk sig msg =
     (if length sig \<noteq> 64 then Raised_AssertionError
      else if sig = to_bytes vk @ pack_s 32 msg then Returned
      else Raised_BadSignatureError)"

text \<open>
  Three certificates issued with that instance: a self-signed root with signing key
  \<open>[1]\<close>, an intermediate with signing key \<open>[2]\<close> issued by the root, and a leaf issued
  by the intermediate. The names are \<open>root\<close>, \<open>mid\<close> and \<open>leaf\<close>.
\<close>

definition example_root :: Certificate where
  "example_root = create_certificate ref_sign [114, 111, 111, 116] (ref_verifying_key [1]) [1]"

definition example_mid :: Certificate where
  "example_mid = create_certificate ref_sign [109, 105, 100] (ref_verifying_key [2]) [1]"

definition example_leaf :: Certificate where
  "example_leaf = create_certificate ref_sign [108, 101, 97, 102] (ref_verifying_key [3]) [2]"

text \<open>A certificate whose signature has two bytes instead of 64.\<close>

definition example_short_signature :: Certificate where
  "example_short_signature = ([97], ref_verifying_key [3], [1, 2])"

text \<open>A certificate issued by the intermediate for the two-byte name \<open>a\<close>, NUL.\<close>

definition example_nul_name :: Certificate where
  "example_nul_name = create_certificate ref_sign [97, 0] (ref_verifying_key [3]) [2]"

section \<open>Packing and NUL termination\<close>

lemma length_pack_s: "length (pack_s n b) = n"
  by (simp add: pack_s_def)

lemma pack_s_Nil: "pack_s n [] = replicate n 0"
  by (simp add: pack_s_def)

lemma pack_s_Cons: "pack_s (Suc n) (x # xs) = x # pack_s n xs"
  by (simp add: pack_s_def)

lemma nth_pack_s: "i < n \<Longrightarrow> pack_s n b ! i = (if i < length b then b ! i else 0)"
  by (simp add: pack_s_def nth_append)

lemma length_pack_255s32s: "length (pack_255s32s a b) = 287"
  by (simp add: pack_255s32s_def length_pack_s)

lemma nth_pack_255s32s:
  "i < 255 \<Longrightarrow> pack_255s32s a b ! i = (if i < length a then a ! i else 0)"
  by (simp add: pack_255s32s_def nth_append length_pack_s nth_pack_s)

lemma pack_s_zeros: "\<forall>x \<in> set (take n b). x = 0 \<Longrightarrow> pack_s n b = replicate n 0"
proof (induction b arbitrary: n)
  case Nil
  show ?case by (simp add: pack_s_Nil)
next
  case (Cons x xs)
  show ?case
  proof (cases n)
    case 0
    then show ?thesis by (simp add: pack_s_def)
  next
    case (Suc m)
    with Cons.prems have "x = 0" and "\<forall>y \<in> set (take m xs). y = 0" by simp_all
    with Cons.IH [of m] Suc show ?thesis by (simp add: pack_s_Cons)
  qed
qed

text \<open>
  Cutting a name at its first NUL does not change its packed field, provided that only
  NUL bytes follow that NUL inside the field.
\<close>

lemma pack_s_null_terminated:
  "nul_padded (take n b) \<Longrightarrow> pack_s n (create_string_buffer_value b) = pack_s n b"
proof (induction b arbitrary: n)
  case Nil
  show ?case by (simp add: create_string_buffer_value_def)
next
  case (Cons x xs)
  show ?case
  proof (cases n)
    case 0
    then show ?thesis by (simp add: pack_s_def)
  next
    case (Suc m)
    show ?thesis
    proof (cases "x = 0")
      case True
      with Cons.prems Suc have "\<forall>y \<in> set (take n (x # xs)). y = 0"
        by (simp add: nul_padded_def list_all_iff)
      then have "pack_s n (x # xs) = replicate n 0" by (rule pack_s_zeros)
      with True show ?thesis by (simp add: create_string_buffer_value_def pack_s_Nil)
    next
      case False
      with Cons.prems Suc have "nul_padded (take m xs)" by (simp add: nul_padded_def)
      then have "pack_s m (create_string_buffer_value xs) = pack_s m xs" by (rule Cons.IH)
      with False Suc show ?thesis by (simp add: create_string_buffer_value_def pack_s_Cons)
    qed
  qed
qed

lemma nul_padded_take: "nul_padded b \<Longrightarrow> nul_padded (take n b)"
proof (induction b arbitrary: n)
  case Nil
  show ?case by (simp add: nul_padded_def)
next
  case (Cons x xs)
  show ?case
  proof (cases n)
    case 0
    then show ?thesis by (simp add: nul_padded_def)
  next
    case (Suc m)
    show ?thesis
    proof (cases "x = 0")
      case True
      with Cons.prems have "\<forall>y \<in> set xs. y = 0" by (simp add: nul_padded_def list_all_iff)
      then have "\<forall>y \<in> set (take m xs). y = 0" by (meson in_set_takeD)
      with True Suc show ?thesis by (simp add: nul_padded_def list_all_iff)
    next
      case False
      with Cons.prems have "nul_padded xs" by (simp add: nul_padded_def)
      then have "nul_padded (take m xs)" by (rule Cons.IH)
      with False Suc show ?thesis by (simp add: nul_padded_def)
    qed
  qed
qed

lemma get_name_simp: "get_name (name, k, sg) = create_string_buffer_value name"
  by (simp add: get_name_def null_terminated_def)

lemma create_string_buffer_value_no_nul:
  "0 \<notin> set b \<Longrightarrow> create_string_buffer_value b = b"
  by (simp add: create_string_buffer_value_def takeWhile_eq_all_conv) metis

lemma no_nul_padded: "0 \<notin> set b \<Longrightarrow> nul_padded b"
  by (induction b) (simp_all add: nul_padded_def)

text \<open>A NUL-padded byte string is its part before the first NUL followed by NUL bytes.\<close>

lemma nul_padded_split:
  "nul_padded b \<Longrightarrow>
   create_string_buffer_value b @
     replicate (length b - length (create_string_buffer_value b)) 0 = b"
proof (induction b)
  case Nil
  show ?case by (simp add: create_string_buffer_value_def)
next
  case (Cons x xs)
  show ?case
  proof (cases "x = 0")
    case True
    with Cons.prems have "\<forall>y \<in> set xs. y = 0" by (simp add: nul_padded_def list_all_iff)
    then have "replicate (length xs) 0 = xs" by (rule replicate_length_same)
    with True show ?thesis by (simp add: create_string_buffer_value_def)
  next
    case False
    with Cons.prems have "nul_padded xs" by (simp add: nul_padded_def)
    then have "create_string_buffer_value xs @
        replicate (length xs - length (create_string_buffer_value xs)) 0 = xs"
      by (rule Cons.IH)
    with False show ?thesis by (simp add: create_string_buffer_value_def)
  qed
qed

section \<open>The reference instance\<close>

lemma ref_scheme_correct: "scheme_correct ref_sign ref_verify ref_verifying_key"
  by (simp add: scheme_correct_def ref_sign_def ref_verify_def ref_verifying_key_def length_pack_s)

text \<open>
  When only NUL bytes follow the first NUL of the name inside its 255-byte field, the
  message signed at issuance is the message rebuilt at verification.
\<close>

lemma verify_created:
  assumes "scheme_correct sign verify verifying_key"
    and "nul_padded (take 255 name)"
    and "get_public_key ca = verifying_key privkey"
  shows "verify_certificate verify (create_certificate sign name pubkey privkey) ca"
proof -
  have "pack_s 255 (create_string_buffer_value name) = pack_s 255 name"
    using assms(2) by (rule pack_s_null_terminated)
  then have "pack_255s32s (get_name (create_certificate sign name pubkey privkey))
               (to_bytes pubkey) = pack_255s32s name (to_bytes pubkey)"
    by (simp add: create_certificate_def get_name_simp pack_255s32s_def)
  then show ?thesis
    using assms(1,3)
    by (simp add: verify_certificate_def scheme_correct_def create_certificate_def
        get_public_key_def get_signature_def)
qed

lemma get_public_key_created:
  "get_public_key (create_certificate sign name pubkey privkey) = pubkey"
  by (simp add: create_certificate_def get_public_key_def)

lemma example_links:
  "verify_certificate ref_verify example_leaf example_mid"
  "verify_certificate ref_verify example_mid example_root"
  "verify_certificate ref_verify example_root example_root"
  unfolding example_leaf_def example_mid_def example_root_def
  by (rule verify_created [OF ref_scheme_correct];
      simp add: nul_padded_def get_public_key_created)+

text \<open>
  With an embedded NUL the two messages differ: issuance signs the whole name, verification
  rebuilds the message from the name cut at the NUL.
\<close>

lemma embedded_nul_message:
  "pack_s 32 (pack_255s32s [97, 0, 98] kb) \<noteq>
   pack_s 32 (pack_255s32s (create_string_buffer_value [97, 0, 98]) kb)"
proof
  assume "pack_s 32 (pack_255s32s [97, 0, 98] kb) =
          pack_s 32 (pack_255s32s (create_string_buffer_value [97, 0, 98]) kb)"
  then have "pack_s 32 (pack_255s32s [97, 0, 98] kb) ! 2 =
             pack_s 32 (pack_255s32s (create_string_buffer_value [97, 0, 98]) kb) ! 2"
    by simp
  then show False
    by (simp add: nth_pack_s nth_pack_255s32s length_pack_255s32s create_string_buffer_value_def)
qed

lemma chain_links_long:
  "length chain > 1 \<Longrightarrow>
   chain_links chain = Inr (map (\<lambda>i. (chain ! i, chain ! (i + 1))) [0 ..< length chain - 1])"
  by (simp add: chain_links_def)

section \<open>Base64 decoding undoes encoding\<close>

lemma b64_code_less: "b64_code i < 128"
  by (auto simp add: b64_code_def)

lemma unat_b64_char: "unat (b64_char i) = b64_code i"
  using b64_code_less [of i] by (simp add: b64_char_def unat_of_nat take_bit_nat_eq_self)

lemma b64_index_char: "i < 64 \<Longrightarrow> b64_index (b64_char i) = Some i"
  by (auto simp add: b64_index_def unat_b64_char Let_def b64_code_def)

lemma b64_char_not_pad: "b64_char i \<noteq> 61"
proof
  assume "b64_char i = 61"
  then have "unat (b64_char i) = unat (61 :: byte)" by simp
  then show False by (auto simp add: unat_b64_char b64_code_def split: if_splits)
qed

lemma sextets_recompose:
  fixes n :: nat
  shows "((n div 262144 * 64 + n div 4096 mod 64) * 64 + n div 64 mod 64) * 64 + n mod 64 = n"
proof -
  have a: "n div 4096 = n div 64 div 64" by (simp add: div_mult2_eq)
  have b: "n div 262144 = n div 64 div 64 div 64" by (simp add: div_mult2_eq)
  show ?thesis unfolding a b by (simp add: ac_simps)
qed

lemma sextets_high:
  fixes n :: nat
  shows "n div 262144 * 64 + n div 4096 mod 64 = n div 4096"
    and "(n div 262144 * 64 + n div 4096 mod 64) * 64 + n div 64 mod 64 = n div 64"
proof -
  have a: "n div 4096 = n div 64 div 64" by (simp add: div_mult2_eq)
  have b: "n div 262144 = n div 64 div 64 div 64" by (simp add: div_mult2_eq)
  show h: "n div 262144 * 64 + n div 4096 mod 64 = n div 4096"
    unfolding a b by (simp add: ac_simps)
  show "(n div 262144 * 64 + n div 4096 mod 64) * 64 + n div 64 mod 64 = n div 64"
    unfolding h unfolding a by (simp add: ac_simps)
qed

lemma triple_nat:
  fixes x y z :: nat
  assumes "x < 256" "y < 256" "z < 256"
  defines "n \<equiv> x * 65536 + y * 256 + z"
  shows "n div 262144 < 64" and "n div 65536 = x" and "n div 256 mod 256 = y" and "n mod 256 = z"
proof -
  define r where "r = y * 256 + z"
  define k where "k = x * 256 + y"
  have r: "r < 65536" using assms by (simp add: r_def)
  have n1: "n = x * 65536 + r" by (simp add: n_def r_def)
  have n2: "n = k * 256 + z" by (simp add: n_def k_def)
  show hi: "n div 65536 = x" unfolding n1 using r by simp
  have "n div 262144 = n div 65536 div 4" by (simp add: div_mult2_eq)
  then show "n div 262144 < 64" using hi assms(1) by simp
  have "n div 256 = k" unfolding n2 using assms(3) by simp
  then show "n div 256 mod 256 = y" using assms(2) by (simp add: k_def)
  show "n mod 256 = z" unfolding n2 using assms(3) by simp
qed

lemma unat_byte_less: "unat (a :: byte) < 256"
  using unsigned_less [of a, where ?'a = nat] by simp

lemma b64_triple:
  fixes a b c :: byte
  defines "n \<equiv> unat a * 65536 + unat b * 256 + unat c"
  shows "n div 262144 < 64"
    and "of_nat (n div 65536) = a"
    and "of_nat (n div 256 mod 256) = b"
    and "of_nat (n mod 256) = c"
proof -
  note t = triple_nat [OF unat_byte_less [of a] unat_byte_less [of b] unat_byte_less [of c]]
  show "n div 262144 < 64" unfolding n_def by (rule t(1))
  show "of_nat (n div 65536) = a" unfolding n_def t(2) by simp
  show "of_nat (n div 256 mod 256) = b" unfolding n_def t(3) by simp
  show "of_nat (n mod 256) = c" unfolding n_def t(4) by simp
qed

lemma b64decode_quad:
  assumes "s1 < 64" "s2 < 64" "s3 < 64" "s4 < 64"
  shows "b64decode (b64_char s1 # b64_char s2 # b64_char s3 # b64_char s4 # rest) =
           (case b64decode rest of
              Inl e \<Rightarrow> Inl e
            | Inr out \<Rightarrow>
                (let n = ((s1 * 64 + s2) * 64 + s3) * 64 + s4
                 in Inr (of_nat (n div 65536) # of_nat (n div 256 mod 256)
                         # of_nat (n mod 256) # out)))"
  using assms by (simp add: b64_index_char b64_char_not_pad)

lemma b64decode_pad1:
  assumes "s1 < 64" "s2 < 64" "s3 < 64"
  shows "b64decode [b64_char s1, b64_char s2, b64_char s3, 61] =
           (let n = (s1 * 64 + s2) * 64 + s3
            in Inr [of_nat (n div 1024), of_nat (n div 4 mod 256)])"
  using assms by (simp add: b64_index_char b64_char_not_pad)

lemma b64decode_pad2:
  assumes "s1 < 64" "s2 < 64"
  shows "b64decode [b64_char s1, b64_char s2, 61, 61] = Inr [of_nat ((s1 * 64 + s2) div 16)]"
  using assms by (simp add: b64_index_char)

text \<open>Decoding undoes encoding, whatever the number of bytes.\<close>

lemma b64_roundtrip: "b64decode (b64encode bs) = Inr bs"
proof (induction bs rule: b64encode.induct)
  case (1 a b c rest)
  define n where "n = unat a * 65536 + unat b * 256 + unat c"
  note t = b64_triple [of a b c, folded n_def]
  have "b64decode (b64encode (a # b # c # rest)) =
          b64decode (b64_char (n div 262144) # b64_char (n div 4096 mod 64) #
            b64_char (n div 64 mod 64) # b64_char (n mod 64) # b64encode rest)"
    by (simp add: n_def Let_def)
  also have "\<dots> = Inr (of_nat (n div 65536) # of_nat (n div 256 mod 256)
                      # of_nat (n mod 256) # rest)"
    using t(1)
    by (simp only: b64decode_quad "1.IH" sextets_recompose Let_def sum.case
        mod_less_divisor zero_less_numeral)
  finally show ?case by (simp only: t)
next
  case (2 a b)
  define n where "n = unat a * 65536 + unat b * 256 + unat (0 :: byte)"
  note t = b64_triple [of a b 0, folded n_def]
  have d: "n div 64 div 1024 = n div 65536" "n div 64 div 4 = n div 256"
    by (simp_all add: div_mult2_eq)
  have "b64decode (b64encode [a, b]) =
          b64decode [b64_char (n div 262144), b64_char (n div 4096 mod 64),
            b64_char (n div 64 mod 64), 61]"
    by (simp add: n_def Let_def)
  also have "\<dots> = Inr [of_nat (n div 65536), of_nat (n div 256 mod 256)]"
    using t(1)
    by (simp only: b64decode_pad1 sextets_high(2) Let_def d mod_less_divisor zero_less_numeral)
  finally show ?case by (simp only: t)
next
  case (3 a)
  define n where "n = unat a * 65536 + unat (0 :: byte) * 256 + unat (0 :: byte)"
  note t = b64_triple [of a 0 0, folded n_def]
  have d: "n div 4096 div 16 = n div 65536"
    by (simp add: div_mult2_eq)
  have "b64decode (b64encode [a]) =
          b64decode [b64_char (n div 262144), b64_char (n div 4096 mod 64), 61, 61]"
    by (simp add: n_def Let_def)
  also have "\<dots> = Inr [of_nat (n div 65536)]"
    using t(1) by (simp only: b64decode_pad2 sextets_high(1) d mod_less_divisor zero_less_numeral)
  finally show ?case by (simp only: t)
next
  case 4
  show ?case by simp
qed


lemma b64encode_ascii: "\<forall>c \<in> set (b64encode bs). unat c < 128"
  by (induction bs rule: b64encode.induct)
     (simp_all add: Let_def unat_b64_char b64_code_less)

section \<open>UTF-8\<close>

lemma bytes_decode_ascii:
  "\<forall>b \<in> set bs. unat b < 128 \<Longrightarrow> bytes_decode bs = Inr (map unat bs)"
  by (induction bs) simp_all

lemma encode_code_point_ascii: "unat b < 128 \<Longrightarrow> encode_code_point (unat b) = Inr [b]"
  by (simp add: encode_code_point_def)

lemma str_encode_ascii:
  "\<forall>b \<in> set bs. unat b < 128 \<Longrightarrow> str_encode (map unat bs) = Inr bs"
  by (induction bs) (simp_all add: encode_code_point_ascii)

lemma b64decode_str_ascii:
  "\<forall>b \<in> set bs. unat b < 128 \<Longrightarrow> b64decode_str (map unat bs) = b64decode bs"
  by (simp add: b64decode_str_def list_all_iff comp_def)



lemma encode_two:
  fixes n c :: nat
  assumes "194 \<le> n" "n \<le> 223" "128 \<le> c" "c \<le> 191"
  shows "encode_code_point (code_point2 n c) = Inr [of_nat n, of_nat c]"
proof -
  define h where "h = n - 192"
  define a where "a = c - 128"
  define cp where "cp = h * 64 + a"
  have b: "2 \<le> h" "h < 32" "a < 64" using assms by (simp_all add: h_def a_def)
  have r: "192 + h = n" "128 + a = c" using assms by (simp_all add: h_def a_def)
  have d: "cp div 64 = h" "cp mod 64 = a" using b(3) by (simp_all add: cp_def)
  have "128 \<le> cp" "cp < 2048" using b by (simp_all add: cp_def)
  then have "encode_code_point cp = Inr [of_nat (192 + h), of_nat (128 + a)]"
    by (simp add: encode_code_point_def d)
  from this [unfolded r] show ?thesis by (simp only: code_point2_def cp_def h_def a_def)
qed

lemma encode_three:
  fixes n c1 c2 :: nat
  assumes "224 \<le> n" "n \<le> 239"
    and "(if n = 224 then 160 else 128) \<le> c1" "c1 \<le> (if n = 237 then 159 else 191)"
    and "128 \<le> c2" "c2 \<le> 191"
  shows "encode_code_point (code_point3 n c1 c2) = Inr [of_nat n, of_nat c1, of_nat c2]"
proof -
  define h where "h = n - 224"
  define a where "a = c1 - 128"
  define b where "b = c2 - 128"
  define q where "q = h * 64 + a"
  define cp where "cp = q * 64 + b"
  have bd: "h < 16" "a < 64" "b < 64"
    using assms by (simp_all add: h_def a_def b_def split: if_splits)
  have r: "224 + h = n" "128 + a = c1" "128 + b = c2"
    using assms by (simp_all add: h_def a_def b_def split: if_splits)
  have lo: "32 \<le> q" using assms by (auto simp add: q_def h_def a_def split: if_splits)
  have hi: "q < 1024" using bd by (simp add: q_def)
  have sur: "q < 864 \<or> 896 \<le> q"
    using assms by (auto simp add: q_def h_def a_def split: if_splits)
  have dq: "q div 64 = h" "q mod 64 = a" using bd(2) by (simp_all add: q_def)
  have dc: "cp div 64 = q" "cp mod 64 = b" using bd(3) by (simp_all add: cp_def)
  have d4: "cp div 4096 = h"
  proof -
    have "cp div 4096 = cp div 64 div 64" by (simp add: div_mult2_eq)
    then show ?thesis by (simp add: dc dq)
  qed
  have c1: "2048 \<le> cp" using lo by (simp add: cp_def)
  have c2: "cp < 65536" using hi bd(3) by (simp add: cp_def)
  have c3: "\<not> (55296 \<le> cp \<and> cp \<le> 57343)" using sur bd(3) by (auto simp add: cp_def)
  have "encode_code_point cp = Inr [of_nat (224 + h), of_nat (128 + a), of_nat (128 + b)]"
    using c1 c2 c3 by (simp add: encode_code_point_def d4 dc dq)
  from this [unfolded r] show ?thesis
    by (simp only: code_point3_def cp_def q_def h_def a_def b_def)
qed

lemma encode_four:
  fixes n c1 c2 c3 :: nat
  assumes "240 \<le> n" "n \<le> 244"
    and "(if n = 240 then 144 else 128) \<le> c1" "c1 \<le> (if n = 244 then 143 else 191)"
    and "128 \<le> c2" "c2 \<le> 191" "128 \<le> c3" "c3 \<le> 191"
  shows "encode_code_point (code_point4 n c1 c2 c3) =
           Inr [of_nat n, of_nat c1, of_nat c2, of_nat c3]"
proof -
  define h where "h = n - 240"
  define a where "a = c1 - 128"
  define b where "b = c2 - 128"
  define c where "c = c3 - 128"
  define p where "p = h * 64 + a"
  define q where "q = p * 64 + b"
  define cp where "cp = q * 64 + c"
  have bd: "h < 5" "a < 64" "b < 64" "c < 64"
    using assms by (simp_all add: h_def a_def b_def c_def split: if_splits)
  have r: "240 + h = n" "128 + a = c1" "128 + b = c2" "128 + c = c3"
    using assms by (simp_all add: h_def a_def b_def c_def split: if_splits)
  have lo: "16 \<le> p" using assms by (auto simp add: p_def h_def a_def split: if_splits)
  have hi: "p < 272" using assms by (auto simp add: p_def h_def a_def split: if_splits)
  have dp: "p div 64 = h" "p mod 64 = a" using bd(2) by (simp_all add: p_def)
  have dq: "q div 64 = p" "q mod 64 = b" using bd(3) by (simp_all add: q_def)
  have dc: "cp div 64 = q" "cp mod 64 = c" using bd(4) by (simp_all add: cp_def)
  have d4: "cp div 4096 = p"
  proof -
    have "cp div 4096 = cp div 64 div 64" by (simp add: div_mult2_eq)
    then show ?thesis by (simp add: dc dq)
  qed
  have d5: "cp div 262144 = h"
  proof -
    have "cp div 262144 = cp div 64 div 64 div 64" by (simp add: div_mult2_eq)
    then show ?thesis by (simp add: dc dq dp)
  qed
  have c1: "65536 \<le> cp" using lo by (simp add: cp_def q_def)
  have c2: "cp < 1114112" using hi bd by (simp add: cp_def q_def)
  have "encode_code_point cp =
          Inr [of_nat (240 + h), of_nat (128 + a), of_nat (128 + b), of_nat (128 + c)]"
    using c1 c2 by (simp add: encode_code_point_def d5 d4 dc dq dp)
  from this [unfolded r] show ?thesis
    by (simp only: code_point4_def cp_def q_def p_def h_def a_def b_def c_def)
qed

lemma bytes_decode_one:
  assumes "unat b < 128" and "bytes_decode (b # rest) = Inr s"
  obtains cs where "bytes_decode rest = Inr cs" and "s = unat b # cs"
  using assms by (cases "bytes_decode rest") simp_all

lemma bytes_decode_two:
  assumes "194 \<le> unat b" "unat b \<le> 223" and "bytes_decode (b # rest) = Inr s"
  obtains c1 rest1 cs where "rest = c1 # rest1" and "is_cont c1"
    and "bytes_decode rest1 = Inr cs" and "s = code_point2 (unat b) (unat c1) # cs"
proof (cases rest)
  case Nil
  with assms show ?thesis by simp
next
  case (Cons c1 rest1)
  show ?thesis
  proof (cases "is_cont c1")
    case True
    with assms Cons that show ?thesis by (cases "bytes_decode rest1") simp_all
  next
    case False
    with assms Cons show ?thesis by simp
  qed
qed

lemma bytes_decode_three:
  assumes "224 \<le> unat b" "unat b \<le> 239" and "bytes_decode (b # rest) = Inr s"
  obtains c1 c2 rest2 cs where "rest = c1 # c2 # rest2"
    and "(if unat b = 224 then 160 else 128) \<le> unat c1"
    and "unat c1 \<le> (if unat b = 237 then 159 else 191)" and "is_cont c2"
    and "bytes_decode rest2 = Inr cs"
    and "s = code_point3 (unat b) (unat c1) (unat c2) # cs"
proof (cases rest)
  case Nil
  with assms show ?thesis by simp
next
  case c: (Cons c1 rest1)
  show ?thesis
  proof (cases rest1)
    case Nil
    with assms c show ?thesis by simp
  next
    case (Cons c2 rest2)
    define ok where "ok \<longleftrightarrow> (if unat b = 224 then 160 else 128) \<le> unat c1 \<and>
      unat c1 \<le> (if unat b = 237 then 159 else 191) \<and> is_cont c2"
    have d: "bytes_decode (b # rest) =
        (if ok then (case bytes_decode rest2 of Inl e \<Rightarrow> Inl e
                     | Inr cs \<Rightarrow> Inr (code_point3 (unat b) (unat c1) (unat c2) # cs))
         else Inl UnicodeDecodeError)"
      using assms(1,2) by (simp add: c Cons ok_def Let_def)
    show ?thesis
    proof (cases ok)
      case True
      with d assms(3) obtain cs where "bytes_decode rest2 = Inr cs"
        "s = code_point3 (unat b) (unat c1) (unat c2) # cs"
        by (cases "bytes_decode rest2") simp_all
      with True that c Cons show ?thesis unfolding ok_def by blast
    next
      case False
      with d assms(3) show ?thesis by simp
    qed
  qed
qed

lemma bytes_decode_four:
  assumes "240 \<le> unat b" "unat b \<le> 244" and "bytes_decode (b # rest) = Inr s"
  obtains c1 c2 c3 rest3 cs where "rest = c1 # c2 # c3 # rest3"
    and "(if unat b = 240 then 144 else 128) \<le> unat c1"
    and "unat c1 \<le> (if unat b = 244 then 143 else 191)" and "is_cont c2" and "is_cont c3"
    and "bytes_decode rest3 = Inr cs"
    and "s = code_point4 (unat b) (unat c1) (unat c2) (unat c3) # cs"
proof (cases rest)
  case Nil
  with assms show ?thesis by simp
next
  case c: (Cons c1 rest1)
  show ?thesis
  proof (cases rest1)
    case Nil
    with assms c show ?thesis by simp
  next
    case c': (Cons c2 rest2)
    show ?thesis
    proof (cases rest2)
      case Nil
      with assms c c' show ?thesis by simp
    next
      case (Cons c3 rest3)
      define ok where "ok \<longleftrightarrow> (if unat b = 240 then 144 else 128) \<le> unat c1 \<and>
        unat c1 \<le> (if unat b = 244 then 143 else 191) \<and> is_cont c2 \<and> is_cont c3"
      have d: "bytes_decode (b # rest) =
          (if ok then (case bytes_decode rest3 of Inl e \<Rightarrow> Inl e
                       | Inr cs \<Rightarrow>
                           Inr (code_point4 (unat b) (unat c1) (unat c2) (unat c3) # cs))
           else Inl UnicodeDecodeError)"
        using assms(1,2) by (simp add: c c' Cons ok_def Let_def)
      show ?thesis
      proof (cases ok)
        case True
        with d assms(3) obtain cs where "bytes_decode rest3 = Inr cs"
          "s = code_point4 (unat b) (unat c1) (unat c2) (unat c3) # cs"
          by (cases "bytes_decode rest3") simp_all
        with True that c c' Cons show ?thesis unfolding ok_def by blast
      next
        case False
        with d assms(3) show ?thesis by simp
      qed
    qed
  qed
qed

lemma bytes_decode_bad:
  assumes "128 \<le> unat b" and "unat b < 194 \<or> 244 < unat b"
  shows "bytes_decode (b # rest) = Inl UnicodeDecodeError"
  using assms by auto

text \<open>A byte string that decodes as UTF-8 is the encoding of its text.\<close>

lemma utf8_roundtrip: "bytes_decode b = Inr s \<Longrightarrow> str_encode s = Inr b"
proof (induction b arbitrary: s rule: bytes_decode.induct)
  case 1
  then show ?case by simp
next
  case (2 b rest)
  define n where "n = unat b"
  consider (one) "n < 128"
    | (two) "194 \<le> n" "n \<le> 223"
    | (three) "224 \<le> n" "n \<le> 239"
    | (four) "240 \<le> n" "n \<le> 244"
    | (bad) "128 \<le> n" "n < 194 \<or> 244 < n"
    by linarith
  then show ?case
  proof cases
    case one
    from one "2.prems" obtain cs where cs: "bytes_decode rest = Inr cs" "s = n # cs"
      unfolding n_def by (rule bytes_decode_one)
    from "2.IH"(1) [OF n_def one cs(1)] have "str_encode cs = Inr rest" .
    with one cs(2) show ?thesis by (simp add: n_def encode_code_point_ascii)
  next
    case two
    from two "2.prems" obtain c1 rest1 cs where cs: "rest = c1 # rest1" "is_cont c1"
      "bytes_decode rest1 = Inr cs" "s = code_point2 n (unat c1) # cs"
      unfolding n_def by (rule bytes_decode_two)
    have "str_encode cs = Inr rest1"
      using "2.IH"(2) [OF n_def _ _ cs(1) cs(2) cs(3)] two by simp
    moreover have "encode_code_point (code_point2 n (unat c1)) = Inr [b, c1]"
      using encode_two [of n "unat c1"] two cs(2) by (simp add: is_cont_def n_def)
    ultimately show ?thesis by (simp add: cs)
  next
    case three
    from three "2.prems" obtain c1 c2 rest2 cs where cs: "rest = c1 # c2 # rest2"
      "(if n = 224 then 160 else 128) \<le> unat c1"
      "unat c1 \<le> (if n = 237 then 159 else 191)" "is_cont c2"
      "bytes_decode rest2 = Inr cs" "s = code_point3 n (unat c1) (unat c2) # cs"
      unfolding n_def by (rule bytes_decode_three)
    have "str_encode cs = Inr rest2"
      using "2.IH"(3) [OF n_def _ _ _ cs(1) _ _ cs(5)] three cs(2,3,4) by simp
    moreover have "encode_code_point (code_point3 n (unat c1) (unat c2)) = Inr [b, c1, c2]"
      using encode_three [of n "unat c1" "unat c2"] three cs(2,3,4)
      by (simp add: is_cont_def n_def)
    ultimately show ?thesis by (simp add: cs)
  next
    case four
    from four "2.prems" obtain c1 c2 c3 rest3 cs where cs: "rest = c1 # c2 # c3 # rest3"
      "(if n = 240 then 144 else 128) \<le> unat c1"
      "unat c1 \<le> (if n = 244 then 143 else 191)" "is_cont c2" "is_cont c3"
      "bytes_decode rest3 = Inr cs"
      "s = code_point4 n (unat c1) (unat c2) (unat c3) # cs"
      unfolding n_def by (rule bytes_decode_four)
    have "str_encode cs = Inr rest3"
      using "2.IH"(4) [OF n_def _ _ _ _ cs(1) _ _ _ cs(6)] four cs(2,3,4,5) by simp
    moreover have "encode_code_point (code_point4 n (unat c1) (unat c2) (unat c3)) =
        Inr [b, c1, c2, c3]"
      using encode_four [of n "unat c1" "unat c2" "unat c3"] four cs(2,3,4,5)
      by (simp add: is_cont_def n_def)
    ultimately show ?thesis by (simp add: cs)
  next
    case bad
    with "2.prems" show ?thesis by (simp add: n_def bytes_decode_bad del: bytes_decode.simps)
  qed
qed

section \<open>Serialized certificates\<close>

lemma pack_s_exact: "length b = n \<Longrightarrow> pack_s n b = b"
  by (simp add: pack_s_def)

lemma unpack_pack:
  "unpack_255s32s64s (pack_255s32s64s a b c) = Inr (pack_s 255 a, pack_s 32 b, pack_s 64 c)"
  by (simp add: unpack_255s32s64s_def pack_255s32s64s_def length_pack_s)

lemma create_string_buffer_value_nul_free:
  "0 \<notin> set (create_string_buffer_value b)"
  unfolding create_string_buffer_value_def by (auto dest: set_takeWhileD)

lemma length_create_string_buffer_value:
  "length (create_string_buffer_value b) \<le> length b"
  unfolding create_string_buffer_value_def by (rule length_takeWhile_le)

lemma create_string_buffer_value_pack_s:
  assumes "0 \<notin> set b"
  shows "create_string_buffer_value (pack_s n b) = take n b"
proof -
  have "\<forall>x \<in> set (take n b). x \<noteq> 0" using assms by (metis in_set_takeD)
  then have "takeWhile (\<lambda>x. x \<noteq> 0) (take n b @ replicate (n - length b) 0) = take n b"
    by (cases "n - length b") (simp_all add: takeWhile_append2 takeWhile_eq_all_conv)
  then show ?thesis by (simp add: create_string_buffer_value_def pack_s_def)
qed

lemma deserialize_serialize:
  assumes "valid_key (get_public_key cert)" and "length (get_signature cert) = 64"
  shows "deserialize_certificate (serialize_certificate cert) =
           Inr (take 255 (get_name cert), get_public_key cert, get_signature cert)"
proof -
  obtain name k sg where c: "cert = (name, k, sg)" by (cases cert)
  obtain kb where k: "k = VK kb" by (cases k)
  from assms have l: "length kb = 32" "length sg = 64"
    by (simp_all add: c k valid_key_def get_public_key_def get_signature_def)
  have n: "create_string_buffer_value (pack_s 255 (create_string_buffer_value name)) =
             take 255 (create_string_buffer_value name)"
    by (rule create_string_buffer_value_pack_s) (rule create_string_buffer_value_nul_free)
  show ?thesis
    using l n
    by (simp add: c k deserialize_certificate_def serialize_certificate_def b64_roundtrip
        unpack_pack get_name_simp get_public_key_def get_signature_def VerifyingKey_new_def
        pack_s_exact length_pack_s)
qed


lemma example_leaf_well_formed:
  "valid_key (get_public_key example_leaf)" "length (get_signature example_leaf) = 64"
  "fst example_leaf = [108, 101, 97, 102]"
  by (simp_all add: example_leaf_def create_certificate_def get_public_key_def
      get_signature_def valid_key_def ref_verifying_key_def ref_sign_def length_pack_s)


section \<open>Chain verification\<close>

text \<open>
  C1: for a chain of at least two certificates and any trusted list, chain verification
  returns a boolean, and it is true exactly when every certificate verifies against its
  successor in the chain and the last certificate verifies against at least one trusted
  certificate. One broken link makes the result false.
\<close>

theorem chain_of_two_or_more:
  assumes "2 \<le> length chain"
  shows "verify_certificate_chain verify chain trusted =
           Inr ((\<forall>i < length chain - 1.
                    verify_certificate verify (chain ! i) (chain ! (i + 1))) \<and>
                (\<exists>ca \<in> set trusted. verify_certificate verify (last chain) ca))"
proof -
  from assms have ne: "chain \<noteq> []" and len: "length chain > 1" by auto
  have l: "chain ! (length chain - 1) = last chain"
    using ne by (simp add: last_conv_nth)
  show ?thesis
    using l
    by (auto simp add: verify_certificate_chain_def chain_links_long [OF len]
        list_all_iff list_ex_iff)
qed

theorem chain_of_two_or_more_witness:
  "2 \<le> length [example_leaf, example_mid] \<and>
   verify_certificate_chain ref_verify [example_leaf, example_mid] [example_root] = Inr True"
  using chain_of_two_or_more [of "[example_leaf, example_mid]" ref_verify "[example_root]"]
  by (simp add: example_links)

text \<open>
  C2: for a chain of exactly one certificate, chain verification returns true exactly
  when the certificate verifies against itself and against at least one trusted
  certificate. The self-check alone does not suffice.
\<close>

theorem chain_of_one:
  "verify_certificate_chain verify [c] trusted =
     Inr (verify_certificate verify c c \<and>
          (\<exists>ca \<in> set trusted. verify_certificate verify c ca))"
  by (simp add: verify_certificate_chain_def chain_links_def list_ex_iff)

theorem chain_of_one_witness:
  "verify_certificate_chain ref_verify [example_root] [example_root] = Inr True \<and>
   verify_certificate_chain ref_verify [example_root] [] = Inr False"
  using chain_of_one [of ref_verify example_root "[example_root]"]
    chain_of_one [of ref_verify example_root "[]"]
  by (simp add: example_links)

text \<open>
  C3: on the empty chain, whatever the trusted list, chain verification returns no
  boolean: it raises an exception (\<open>IndexError\<close>).
\<close>

theorem empty_chain_raises:
  "verify_certificate_chain verify [] trusted = Inl IndexError"
  by (simp add: verify_certificate_chain_def chain_links_def)

text \<open>
  C10: for a non-empty chain and an empty trusted list, chain verification returns
  false: neither true nor an exception.
\<close>

theorem no_trusted_certificate:
  "chain \<noteq> [] \<Longrightarrow> verify_certificate_chain verify chain [] = Inr False"
  by (cases chain) (simp_all add: verify_certificate_chain_def chain_links_def)

theorem no_trusted_certificate_witness:
  "[example_leaf, example_mid, example_root] \<noteq> [] \<and>
   verify_certificate_chain ref_verify [example_leaf, example_mid, example_root] [] = Inr False"
  using no_trusted_certificate [of "[example_leaf, example_mid, example_root]" ref_verify]
  by simp

section \<open>Issuance and verification of one certificate\<close>

text \<open>
  C4: a certificate made by \<open>create_certificate\<close> is to verify against any certificate
  that carries the issuer's verifying key. On the three-byte name \<open>a\<close>, NUL, \<open>b\<close> the
  code does not do so: the scheme is correct, the name has at most 255 bytes, the anchor
  carries the issuer's verifying key, and the issued certificate is rejected. Issuance
  signs the packed name as given, whereas verification and serialization rebuild the
  field from \<open>get_name\<close>, the name cut at its first NUL.
\<close>

theorem issued_certificate_rejected:
  "scheme_correct ref_sign ref_verify ref_verifying_key \<and>
   length [97, 0, 98 :: byte] \<le> 255 \<and>
   get_public_key ([] :: bytes, ref_verifying_key [1, 2, 3], [] :: bytes)
     = ref_verifying_key [1, 2, 3] \<and>
   \<not> verify_certificate ref_verify
       (create_certificate ref_sign [97, 0, 98] (VK (replicate 32 7)) [1, 2, 3])
       ([], ref_verifying_key [1, 2, 3], [])"
  using embedded_nul_message [of "replicate 32 7"]
  by (simp add: ref_scheme_correct verify_certificate_def create_certificate_def
      get_public_key_def get_signature_def get_name_simp
      ref_sign_def ref_verify_def ref_verifying_key_def length_pack_s)

text \<open>
  C6, as amended: for every certificate created with a name of at most 255 bytes,
  \<open>get_name\<close> returns the bytes of the name before its first NUL. When only NUL bytes
  follow that NUL, it strips nothing but trailing NUL bytes: the result followed by the
  stripped NUL bytes is the name given at creation. When the name has no NUL byte, it
  returns exactly the name given at creation.
\<close>

theorem get_name_of_created:
  assumes "length name \<le> 255"
  shows "get_name (create_certificate sign name pubkey privkey)
           = takeWhile (\<lambda>x. x \<noteq> 0) name \<and>
         (nul_padded name \<longrightarrow>
            get_name (create_certificate sign name pubkey privkey) @
              replicate (length name -
                length (get_name (create_certificate sign name pubkey privkey))) 0 = name) \<and>
         (0 \<notin> set name \<longrightarrow>
            get_name (create_certificate sign name pubkey privkey) = name)"
proof -
  have g: "get_name (create_certificate sign name pubkey privkey) =
             create_string_buffer_value name"
    by (simp add: create_certificate_def get_name_simp)
  have "create_string_buffer_value name = takeWhile (\<lambda>x. x \<noteq> 0) name"
    by (simp add: create_string_buffer_value_def)
  moreover have "nul_padded name \<longrightarrow>
      create_string_buffer_value name @
        replicate (length name - length (create_string_buffer_value name)) 0 = name"
    by (simp add: nul_padded_split)
  moreover have "0 \<notin> set name \<longrightarrow> create_string_buffer_value name = name"
    by (simp add: create_string_buffer_value_no_nul)
  ultimately show ?thesis unfolding g by blast
qed

theorem get_name_of_created_witness:
  "length [97, 0, 0 :: byte] \<le> 255 \<and> nul_padded [97, 0, 0] \<and>
   get_name (create_certificate ref_sign [97, 0, 0] (ref_verifying_key [3]) [2]) = [97] \<and>
   get_name (create_certificate ref_sign [97, 0, 0] (ref_verifying_key [3]) [2]) @ [0, 0]
     = [97, 0, 0] \<and>
   0 \<notin> set [108, 101, 97, 102 :: byte] \<and>
   get_name (create_certificate ref_sign [108, 101, 97, 102] (ref_verifying_key [3]) [2])
     = [108, 101, 97, 102]"
proof -
  have l: "length [97, 0, 0 :: byte] \<le> 255" "length [108, 101, 97, 102 :: byte] \<le> 255"
    by simp_all
  have p: "nul_padded [97, 0, 0]" by (simp add: nul_padded_def)
  have z: "0 \<notin> set [108, 101, 97, 102 :: byte]" by simp
  note t = get_name_of_created [OF l(1), of ref_sign "ref_verifying_key [3]" "[2]"]
  note u = get_name_of_created [OF l(2), of ref_sign "ref_verifying_key [3]" "[2]"]
  from conjunct1 [OF t]
  have a: "get_name (create_certificate ref_sign [97, 0, 0] (ref_verifying_key [3]) [2])
      = [97]"
    by simp
  from conjunct1 [OF conjunct2 [OF t]] p
  have "get_name (create_certificate ref_sign [97, 0, 0] (ref_verifying_key [3]) [2]) @
      replicate (length [97, 0, 0 :: byte] -
        length (get_name (create_certificate ref_sign [97, 0, 0] (ref_verifying_key [3]) [2]))) 0
      = [97, 0, 0]"
    by (rule mp)
  then have b: "get_name (create_certificate ref_sign [97, 0, 0] (ref_verifying_key [3]) [2])
      @ [0, 0] = [97, 0, 0]"
    by (simp add: a numeral_2_eq_2)
  from conjunct2 [OF conjunct2 [OF u]] z
  have c: "get_name
      (create_certificate ref_sign [108, 101, 97, 102] (ref_verifying_key [3]) [2])
      = [108, 101, 97, 102]"
    by (rule mp)
  from l(1) p a b z c show ?thesis by (intro conjI)
qed

text \<open>
  When a byte other than NUL follows a NUL, more than padding is stripped, here on the
  three-byte name \<open>a\<close>, NUL, \<open>b\<close>: \<open>get_name\<close> returns \<open>a\<close>, dropping \<open>b\<close>.
\<close>

theorem get_name_counterexample:
  "length [97, 0, 98 :: byte] \<le> 255 \<and>
   get_name (create_certificate ref_sign [97, 0, 98] (ref_verifying_key [3]) [2]) = [97] \<and>
   get_name (create_certificate ref_sign [97, 0, 98] (ref_verifying_key [3]) [2])
     \<noteq> [97, 0, 98]"
  by (simp add: create_certificate_def get_name_simp create_string_buffer_value_def)

text \<open>
  C7: whenever the primitive fails on the certificate's signature and rebuilt message,
  by a failed assertion (a signature of the wrong length) or by \<open>BadSignatureError\<close> (a
  wrong key, a tampered payload, a bad signature), \<open>verify_certificate\<close> returns false;
  it raises nothing.
\<close>

theorem verification_failure_is_false:
  assumes "verify (get_public_key ca) (get_signature cert)
             (pack_255s32s (get_name cert) (to_bytes (get_public_key cert)))
           = Raised_AssertionError \<or>
           verify (get_public_key ca) (get_signature cert)
             (pack_255s32s (get_name cert) (to_bytes (get_public_key cert)))
           = Raised_BadSignatureError"
  shows "verify_certificate verify cert ca = False"
  using assms by (auto simp add: verify_certificate_def)

theorem verification_failure_is_false_witness:
  "ref_verify (get_public_key example_root) (get_signature example_short_signature)
     (pack_255s32s (get_name example_short_signature)
        (to_bytes (get_public_key example_short_signature)))
     = Raised_AssertionError \<and>
   verify_certificate ref_verify example_short_signature example_root = False"
proof -
  have h: "ref_verify (get_public_key example_root) (get_signature example_short_signature)
     (pack_255s32s (get_name example_short_signature)
        (to_bytes (get_public_key example_short_signature)))
     = Raised_AssertionError"
    by (simp add: ref_verify_def get_signature_def example_short_signature_def)
  from h verification_failure_is_false [of ref_verify example_root example_short_signature]
  show ?thesis by simp
qed

text \<open>
  C8: \<open>verify_challenge\<close> returns true exactly when the primitive accepts the signature
  over the challenge bytes under the certificate's public key; on every failure of the
  primitive it returns false and raises nothing.
\<close>

theorem verify_challenge_iff:
  "verify_challenge verify challenge signature cert =
     (verify (get_public_key cert) signature challenge = Returned)"
  by (cases "verify (get_public_key cert) signature challenge")
     (simp_all add: verify_challenge_def)

section \<open>Round trips\<close>

text \<open>
  C5, as amended: for every certificate with a 32-byte public key and a 64-byte
  signature whose name has at most 255 bytes, deserializing the serialized certificate
  gives the certificate's logical name (the name cut at its first NUL), the same public
  key and the same signature; when the name has no NUL byte, this is the certificate
  itself.
\<close>

theorem binary_roundtrip:
  assumes "valid_key (get_public_key cert)" and "length (get_signature cert) = 64"
    and "length (fst cert) \<le> 255"
  shows "deserialize_certificate (serialize_certificate cert) =
           Inr (get_name cert, get_public_key cert, get_signature cert) \<and>
         (0 \<notin> set (fst cert) \<longrightarrow>
            deserialize_certificate (serialize_certificate cert) = Inr cert)"
proof -
  obtain name k sg where c: "cert = (name, k, sg)" by (cases cert)
  have "length (get_name cert) \<le> 255"
    using assms(3) length_create_string_buffer_value [of name] by (simp add: c get_name_simp)
  then have e: "deserialize_certificate (serialize_certificate cert) =
           Inr (get_name cert, get_public_key cert, get_signature cert)"
    using deserialize_serialize [OF assms(1,2)] by simp
  show ?thesis
    using e
    by (simp add: c get_name_simp get_public_key_def get_signature_def
        create_string_buffer_value_no_nul)
qed

theorem binary_roundtrip_witness:
  "deserialize_certificate (serialize_certificate example_leaf) = Inr example_leaf"
  using conjunct2 [OF binary_roundtrip [of example_leaf]]
  by (simp add: example_leaf_well_formed)

text \<open>
  Equality with the certificate fails on a name that ends in a NUL: the certificate is
  issued by \<open>create_certificate\<close>, verifies against its issuer, has a 32-byte key, a
  64-byte signature and a two-byte name, and comes back with a one-byte name.
\<close>

theorem binary_roundtrip_counterexample:
  "verify_certificate ref_verify example_nul_name example_mid \<and>
   valid_key (get_public_key example_nul_name) \<and>
   length (get_signature example_nul_name) = 64 \<and>
   length (fst example_nul_name) \<le> 255 \<and>
   deserialize_certificate (serialize_certificate example_nul_name) \<noteq> Inr example_nul_name"
proof -
  have v: "verify_certificate ref_verify example_nul_name example_mid"
    unfolding example_nul_name_def example_mid_def
    by (rule verify_created [OF ref_scheme_correct])
       (simp_all add: nul_padded_def get_public_key_created)
  have w: "valid_key (get_public_key example_nul_name)"
    "length (get_signature example_nul_name) = 64"
    by (simp_all add: example_nul_name_def create_certificate_def get_public_key_def
        get_signature_def valid_key_def ref_verifying_key_def ref_sign_def length_pack_s)
  have n: "fst example_nul_name = [97, 0]" "get_name example_nul_name = [97]"
    by (simp_all add: example_nul_name_def create_certificate_def get_name_simp
        create_string_buffer_value_def)
  have "fst (take 255 (get_name example_nul_name), get_public_key example_nul_name,
             get_signature example_nul_name) \<noteq> fst example_nul_name"
    by (simp add: n)
  then have "(take 255 (get_name example_nul_name), get_public_key example_nul_name,
              get_signature example_nul_name) \<noteq> example_nul_name"
    by metis
  with v w n(1) show ?thesis by (simp add: deserialize_serialize)
qed

text \<open>
  C9: for every certificate with a 32-byte public key whose name has at most 255 bytes
  and is UTF-8 text (so that decoding and encoding it gives the name back),
  \<open>encode_certificate\<close> returns three strings, and \<open>decode_certificate\<close> applied to them
  returns the certificate: the same name bytes, the same key, the same signature.
\<close>

theorem textual_roundtrip:
  assumes "valid_key pubkey"
    and "length name \<le> 255"
    and "bytes_decode name = Inr text"
  shows "\<exists>n k s. encode_certificate name pubkey signature = Inr (n, k, s) \<and>
                 decode_certificate n k s = Inr (name, pubkey, signature)"
proof -
  obtain kb where k: "pubkey = VK kb" by (cases pubkey)
  from assms(1) have l: "length kb = 32" by (simp add: k valid_key_def)
  have e: "encode_certificate name pubkey signature =
             Inr (text, map unat (b64encode kb), map unat (b64encode signature))"
    by (simp add: encode_certificate_def assms(3) k bytes_decode_ascii b64encode_ascii)
  have d: "decode_certificate text (map unat (b64encode kb)) (map unat (b64encode signature)) =
             Inr (name, pubkey, signature)"
    using l
    by (simp add: decode_certificate_def utf8_roundtrip [OF assms(3)] k b64decode_str_ascii str_encode_ascii
        b64encode_ascii b64_roundtrip VerifyingKey_new_def)
  from e d show ?thesis by blast
qed

theorem textual_roundtrip_witness:
  "\<exists>n k s. encode_certificate (fst example_leaf) (get_public_key example_leaf)
               (get_signature example_leaf) = Inr (n, k, s) \<and>
           decode_certificate n k s = Inr example_leaf"
proof -
  have a: "bytes_decode [108, 101, 97, 102] = Inr [108, 101, 97, 102]" by simp
  have c: "(fst example_leaf, get_public_key example_leaf, get_signature example_leaf) = example_leaf"
    by (simp add: get_public_key_def get_signature_def)
  from textual_roundtrip [of "get_public_key example_leaf" "fst example_leaf"
      "[108, 101, 97, 102]" "get_signature example_leaf"] a c
  show ?thesis by (simp add: example_leaf_well_formed)
qed

end
